theory Spec2Isabelle
  imports Main "HOL-Library.Sublist"
begin

section \<open>Text: characters, whitespace, lower case, substrings\<close>

text \<open>
  The bot works on Python \<open>str\<close> values. They are modelled as HOL strings whose
  characters stand for the code points 0 to 255. The emoji of the bot's own texts lie
  beyond that range and are written as their Discord short codes (\<open>:bell:\<close>).
\<close>

definition py_isspace :: "char \<Rightarrow> bool" where
  \<comment> \<open>the characters that \<open>\s\<close> matches in a \<open>str\<close> pattern, below code point 256\<close>
  "py_isspace c = (c \<in> set [CHR 0x09, CHR 0x0A, CHR 0x0B, CHR 0x0C, CHR 0x0D,
      CHR 0x1C, CHR 0x1D, CHR 0x1E, CHR 0x1F, CHR 0x20, CHR 0x85, CHR 0xA0])"

definition upper_chars :: string where
  "upper_chars = ''ABCDEFGHIJKLMNOPQRSTUVWXYZ'' @
     [CHR 0xC0, CHR 0xC1, CHR 0xC2, CHR 0xC3, CHR 0xC4, CHR 0xC5, CHR 0xC6, CHR 0xC7,
      CHR 0xC8, CHR 0xC9, CHR 0xCA, CHR 0xCB, CHR 0xCC, CHR 0xCD, CHR 0xCE, CHR 0xCF,
      CHR 0xD0, CHR 0xD1, CHR 0xD2, CHR 0xD3, CHR 0xD4, CHR 0xD5, CHR 0xD6,
      CHR 0xD8, CHR 0xD9, CHR 0xDA, CHR 0xDB, CHR 0xDC, CHR 0xDD, CHR 0xDE]"

definition lower_chars :: string where
  "lower_chars = ''abcdefghijklmnopqrstuvwxyz'' @
     [CHR 0xE0, CHR 0xE1, CHR 0xE2, CHR 0xE3, CHR 0xE4, CHR 0xE5, CHR 0xE6, CHR 0xE7,
      CHR 0xE8, CHR 0xE9, CHR 0xEA, CHR 0xEB, CHR 0xEC, CHR 0xED, CHR 0xEE, CHR 0xEF,
      CHR 0xF0, CHR 0xF1, CHR 0xF2, CHR 0xF3, CHR 0xF4, CHR 0xF5, CHR 0xF6,
      CHR 0xF8, CHR 0xF9, CHR 0xFA, CHR 0xFB, CHR 0xFC, CHR 0xFD, CHR 0xFE]"

definition lower_char :: "char \<Rightarrow> char" where
  "lower_char c = (case map_of (zip upper_chars lower_chars) c of None \<Rightarrow> c | Some l \<Rightarrow> l)"

definition lower :: "string \<Rightarrow> string" where
  \<comment> \<open>\<open>str.lower()\<close>\<close>
  "lower s = map lower_char s"

definition py_in :: "string \<Rightarrow> string \<Rightarrow> bool" where
  \<comment> \<open>\<open>sub in s\<close> on strings: \<open>sub\<close> occurs in \<open>s\<close> as a contiguous run\<close>
  "py_in sub s = sublist sub s"

definition digit_char :: "nat \<Rightarrow> char" where
  "digit_char d = ''0123456789'' ! (d mod 10)"

function str_nat :: "nat \<Rightarrow> string" where
  "str_nat n = (if n < 10 then [digit_char n] else str_nat (n div 10) @ [digit_char n])"
  by pat_completeness auto
termination
  by (relation "measure (\<lambda>n. n)") auto

declare str_nat.simps [simp del]

section \<open>Regular expressions and \<open>re.search\<close>\<close>

text \<open>
  \<open>LINK_PATTERN = re.compile(r"(https?://\S+|www\.\S+)")\<close> is kept as data. The bot
  only asks whether \<open>search\<close> finds a match, which is the case exactly if some
  substring of the text belongs to the language of the pattern; the matcher decides that
  with derivatives.
\<close>

datatype rx =
    Fail
  | Eps
  | Lit char
  | NonSpace
  | Cat rx rx
  | Alt rx rx
  | Rep rx

definition Opt :: "rx \<Rightarrow> rx" where
  \<comment> \<open>\<open>r?\<close>\<close>
  "Opt r = Alt r Eps"

definition Plus :: "rx \<Rightarrow> rx" where
  \<comment> \<open>\<open>r+\<close>\<close>
  "Plus r = Cat r (Rep r)"

fun Word :: "string \<Rightarrow> rx" where
  "Word [] = Eps"
| "Word (c # cs) = Cat (Lit c) (Word cs)"

definition LINK_PATTERN :: rx where
  "LINK_PATTERN =
     Alt (Cat (Word ''http'') (Cat (Opt (Lit CHR ''s'')) (Cat (Word ''://'') (Plus NonSpace))))
         (Cat (Word ''www'') (Cat (Lit CHR ''.'') (Plus NonSpace)))"

inductive matches :: "rx \<Rightarrow> string \<Rightarrow> bool" where
  m_eps: "matches Eps []"
| m_lit: "matches (Lit c) [c]"
| m_nonspace: "\<not> py_isspace c \<Longrightarrow> matches NonSpace [c]"
| m_cat: "matches r u \<Longrightarrow> matches s v \<Longrightarrow> matches (Cat r s) (u @ v)"
| m_alt1: "matches r u \<Longrightarrow> matches (Alt r s) u"
| m_alt2: "matches s u \<Longrightarrow> matches (Alt r s) u"
| m_rep0: "matches (Rep r) []"
| m_rep: "matches r u \<Longrightarrow> matches (Rep r) v \<Longrightarrow> matches (Rep r) (u @ v)"

fun nullable :: "rx \<Rightarrow> bool" where
  "nullable Fail = False"
| "nullable Eps = True"
| "nullable (Lit c) = False"
| "nullable NonSpace = False"
| "nullable (Cat r s) = (nullable r \<and> nullable s)"
| "nullable (Alt r s) = (nullable r \<or> nullable s)"
| "nullable (Rep r) = True"

fun deriv :: "char \<Rightarrow> rx \<Rightarrow> rx" where
  "deriv c Fail = Fail"
| "deriv c Eps = Fail"
| "deriv c (Lit d) = (if c = d then Eps else Fail)"
| "deriv c NonSpace = (if py_isspace c then Fail else Eps)"
| "deriv c (Cat r s) =
     (if nullable r then Alt (Cat (deriv c r) s) (deriv c s) else Cat (deriv c r) s)"
| "deriv c (Alt r s) = Alt (deriv c r) (deriv c s)"
| "deriv c (Rep r) = Cat (deriv c r) (Rep r)"

fun match_here :: "rx \<Rightarrow> string \<Rightarrow> bool" where
  \<comment> \<open>\<open>re.match\<close>: some prefix of the text matches\<close>
  "match_here r [] = nullable r"
| "match_here r (c # cs) = (if nullable r then True else match_here (deriv c r) cs)"

fun search :: "rx \<Rightarrow> string \<Rightarrow> bool" where
  \<comment> \<open>\<open>re.search\<close>, as a truth value: a match starts at some position\<close>
  "search r [] = nullable r"
| "search r (c # cs) = (if match_here r (c # cs) then True else search r cs)"

definition url_like :: "string \<Rightarrow> bool" where
  \<comment> \<open>the text holds \<open>http://\<close>, \<open>https://\<close> or \<open>www.\<close> with a non-whitespace character
      right after it\<close>
  "url_like s = (\<exists>a c b. \<not> py_isspace c \<and>
      (s = a @ ''http://'' @ c # b \<or> s = a @ ''https://'' @ c # b \<or> s = a @ ''www.'' @ c # b))"

section \<open>The platform: objects, primitives, failures\<close>

text \<open>
  The objects the client library hands to the handlers are records of the attributes the
  bot reads. Every \<open>await\<close> on a primitive of the platform is a call that is recorded and
  that the platform may answer with an exception. The model covers messages sent in a
  guild, run one handler at a time. The library's parser of command invocations is the
  field \<open>get_context\<close>: the registered command a message invokes, if any, and the member
  it names, if it names one.
\<close>

record user =
  user_id :: int
  user_bot :: bool
  user_mention :: string
  user_str :: string

datatype audit_action = channel_create | role_create | ban | other_action

record audit_entry =
  entry_action :: audit_action
  entry_user :: user

record guild =
  guild_id :: int
  guild_channels :: "int list"
  guild_audit :: "audit_entry list"

record channel =
  channel_id :: int
  channel_name :: string
  channel_mention :: string
  channel_guild :: guild

record role =
  role_id :: int
  role_name :: string
  role_guild :: guild

record message =
  message_id :: int
  message_author :: user
  message_content :: string
  message_channel :: channel
  message_guild :: guild

record invocation =
  ctx_author :: user
  ctx_channel :: channel
  ctx_guild :: guild

datatype colour = Orange

record embed =
  description :: string
  color :: colour
  timestamp :: int

datatype payload = Text string | Embed embed

datatype action =
    MessageDelete int
  | UserSend int string
  | MemberTimeout int nat string
  | ChannelSend int payload
  | ChannelDelete int
  | RoleDelete int
  | Ban int string
  | ProcessCommands int

datatype exn = Forbidden | NotFound | HTTPException | NotOwner | MissingRequiredArgument

datatype command = Whitelist | Unwhitelist

record platform =
  raises :: "action list \<Rightarrow> action \<Rightarrow> exn option"
  utcnow :: "action list \<Rightarrow> int"
  is_owner :: "int \<Rightarrow> bool"
  client_user :: user
  get_context :: "message \<Rightarrow> (command \<times> user option) option"

record config =
  OWNER_ID :: int
  LOG_CHANNEL_ID :: int

record world =
  whitelisted :: "int set"
  calls :: "action list"
  console :: "string list"

definition startup :: "config \<Rightarrow> world" where
  \<comment> \<open>\<open>whitelisted = {OWNER_ID}\<close>, nothing called or printed yet\<close>
  "startup cfg = \<lparr>whitelisted = {OWNER_ID cfg}, calls = [], console = []\<rparr>"

definition TIMEOUT_DURATION :: nat where
  "TIMEOUT_DURATION = 600"

type_synonym 'a io = "world \<Rightarrow> (exn + 'a) \<times> world"

definition skip :: "unit io" where
  "skip w = (Inr (), w)"

definition call :: "platform \<Rightarrow> action \<Rightarrow> unit io" where
  "call plat a w =
     ((case raises plat (calls w) a of None \<Rightarrow> Inr () | Some e \<Rightarrow> Inl e),
      w\<lparr>calls := calls w @ [a]\<rparr>)"

definition print :: "string \<Rightarrow> unit io" where
  "print line w = (Inr (), w\<lparr>console := console w @ [line]\<rparr>)"

definition then_do :: "unit io \<Rightarrow> unit io \<Rightarrow> unit io" where
  "then_do p q w = (case p w of (Inl e, w') \<Rightarrow> (Inl e, w') | (Inr u, w') \<Rightarrow> q w')"

definition block :: "unit io list \<Rightarrow> unit io" where
  "block ps = foldr then_do ps skip"

definition when_io :: "(world \<Rightarrow> bool) \<Rightarrow> unit io \<Rightarrow> unit io" where
  "when_io c p w = (if c w then p w else skip w)"

definition try_except :: "unit io \<Rightarrow> exn \<Rightarrow> unit io \<Rightarrow> unit io" where
  "try_except p e h w =
     (case p w of
        (Inl x, w') \<Rightarrow> if x = e then h w' else (Inl x, w')
      | (Inr u, w') \<Rightarrow> (Inr u, w'))"

fun for_each :: "('a \<Rightarrow> unit io) \<Rightarrow> 'a list \<Rightarrow> unit io" where
  "for_each body [] = skip"
| "for_each body (x # xs) = then_do (body x) (for_each body xs)"

definition get_channel :: "guild \<Rightarrow> int \<Rightarrow> int option" where
  "get_channel g cid = (if cid \<in> set (guild_channels g) then Some cid else None)"

definition audit_logs :: "guild \<Rightarrow> audit_action \<Rightarrow> nat \<Rightarrow> audit_entry list" where
  \<comment> \<open>the newest \<open>limit\<close> entries of the given action; \<open>guild_audit\<close> is newest first\<close>
  "audit_logs g a limit = take limit (filter (\<lambda>e. entry_action e = a) (guild_audit g))"

section \<open>Helper functions of the bot\<close>

definition security_alert :: "string \<Rightarrow> string" where
  "security_alert text = '':bell: **Server Security Alert** :bell:'' @ [CHR 0x0A] @ text"

definition send_dm :: "platform \<Rightarrow> user \<Rightarrow> string \<Rightarrow> unit io" where
  "send_dm plat u text =
     try_except
       (call plat (UserSend (user_id u) (security_alert text)))
       Forbidden
       (print (''Could not DM '' @ user_str u))"

definition log_action :: "platform \<Rightarrow> config \<Rightarrow> guild \<Rightarrow> string \<Rightarrow> unit io" where
  "log_action plat cfg g text w =
     (case get_channel g (LOG_CHANNEL_ID cfg) of
        None \<Rightarrow> skip w
      | Some log_channel \<Rightarrow>
          call plat (ChannelSend log_channel
            (Embed \<lparr>description = text, color = Orange, timestamp = utcnow plat (calls w)\<rparr>)) w)"

section \<open>Security events\<close>

definition channel_log_text :: "audit_entry \<Rightarrow> channel \<Rightarrow> string" where
  "channel_log_text entry c =
     '':rotating_light: '' @ user_mention (entry_user entry) @
     '' was banned for creating channel #'' @ channel_name c"

definition role_log_text :: "audit_entry \<Rightarrow> role \<Rightarrow> string" where
  "role_log_text entry r =
     '':rotating_light: '' @ user_mention (entry_user entry) @
     '' was banned for creating role @'' @ role_name r"

definition ban_log_text :: "audit_entry \<Rightarrow> user \<Rightarrow> string" where
  "ban_log_text entry u =
     '':rotating_light: '' @ user_mention (entry_user entry) @
     '' was banned for trying to ban '' @ user_mention u"

definition on_guild_channel_create :: "platform \<Rightarrow> config \<Rightarrow> channel \<Rightarrow> unit io" where
  "on_guild_channel_create plat cfg c =
     for_each
       (\<lambda>entry. when_io (\<lambda>w. user_id (entry_user entry) \<notin> whitelisted w)
          (block
             [call plat (ChannelDelete (channel_id c)),
              call plat (Ban (user_id (entry_user entry)) ''Unauthorized channel creation''),
              log_action plat cfg (channel_guild c) (channel_log_text entry c)]))
       (audit_logs (channel_guild c) channel_create 1)"

definition on_guild_role_create :: "platform \<Rightarrow> config \<Rightarrow> role \<Rightarrow> unit io" where
  "on_guild_role_create plat cfg r =
     for_each
       (\<lambda>entry. when_io (\<lambda>w. user_id (entry_user entry) \<notin> whitelisted w)
          (block
             [call plat (RoleDelete (role_id r)),
              call plat (Ban (user_id (entry_user entry)) ''Unauthorized role creation''),
              log_action plat cfg (role_guild r) (role_log_text entry r)]))
       (audit_logs (role_guild r) role_create 1)"

definition on_member_ban :: "platform \<Rightarrow> config \<Rightarrow> guild \<Rightarrow> user \<Rightarrow> unit io" where
  "on_member_ban plat cfg g u =
     for_each
       (\<lambda>entry. when_io (\<lambda>w. user_id (entry_user entry) \<notin> whitelisted w)
          (block
             [call plat (Ban (user_id (entry_user entry)) ''Unauthorized ban attempt''),
              log_action plat cfg g (ban_log_text entry u)]))
       (audit_logs g ban 1)"

section \<open>Moderation commands\<close>

definition owner_only :: "platform \<Rightarrow> invocation \<Rightarrow> unit io \<Rightarrow> unit io" where
  \<comment> \<open>\<open>@commands.is_owner()\<close>: the body runs for an owner, anyone else gets \<open>NotOwner\<close>\<close>
  "owner_only plat ctx body w =
     (if is_owner plat (user_id (ctx_author ctx)) then body w else (Inl NotOwner, w))"

definition whitelist :: "platform \<Rightarrow> config \<Rightarrow> invocation \<Rightarrow> user \<Rightarrow> unit io" where
  "whitelist plat cfg ctx member =
     owner_only plat ctx
       (block
          [(\<lambda>w. (Inr (), w\<lparr>whitelisted := insert (user_id member) (whitelisted w)\<rparr>)),
           call plat (ChannelSend (channel_id (ctx_channel ctx))
             (Text ('':white_check_mark: '' @ user_mention member @ '' has been whitelisted.''))),
           log_action plat cfg (ctx_guild ctx)
             ('':memo: '' @ user_mention (ctx_author ctx) @ '' whitelisted '' @
              user_mention member)])"

definition unwhitelist :: "platform \<Rightarrow> config \<Rightarrow> invocation \<Rightarrow> user \<Rightarrow> unit io" where
  "unwhitelist plat cfg ctx member =
     owner_only plat ctx
       (block
          [(\<lambda>w. (Inr (), w\<lparr>whitelisted := whitelisted w - {user_id member}\<rparr>)),
           call plat (ChannelSend (channel_id (ctx_channel ctx))
             (Text ('':x: '' @ user_mention member @ '' has been removed from whitelist.''))),
           log_action plat cfg (ctx_guild ctx)
             ('':memo: '' @ user_mention (ctx_author ctx) @ '' unwhitelisted '' @
              user_mention member)])"

text \<open>
  \<open>bot.process_commands\<close> belongs to the client library. What it does with a message is
  modelled after the library: it ignores bot accounts, asks the parser for the
  invocation and runs the registered command, first its checks, then its arguments,
  then its body. An exception of the command does not come back to the caller: it ends
  the command and is handed to the \<open>command_error\<close> event.
\<close>

definition command_context :: "message \<Rightarrow> invocation" where
  "command_context m =
     \<lparr>ctx_author = message_author m, ctx_channel = message_channel m,
      ctx_guild = message_guild m\<rparr>"

fun run_command :: "platform \<Rightarrow> config \<Rightarrow> invocation \<Rightarrow> command \<Rightarrow> user option \<Rightarrow> unit io" where
  "run_command plat cfg ctx Whitelist (Some member) = whitelist plat cfg ctx member"
| "run_command plat cfg ctx Unwhitelist (Some member) = unwhitelist plat cfg ctx member"
| "run_command plat cfg ctx cmd None =
     owner_only plat ctx (\<lambda>w. (Inl MissingRequiredArgument, w))"

definition invoke :: "platform \<Rightarrow> config \<Rightarrow> message \<Rightarrow> unit io" where
  "invoke plat cfg m w =
     (case get_context plat m of
        None \<Rightarrow> (Inr (), w)
      | Some (cmd, arg) \<Rightarrow> (Inr (), snd (run_command plat cfg (command_context m) cmd arg w)))"

definition process_commands :: "platform \<Rightarrow> config \<Rightarrow> message \<Rightarrow> unit io" where
  "process_commands plat cfg m =
     (if user_bot (message_author m) then skip
      else then_do (call plat (ProcessCommands (message_id m))) (invoke plat cfg m))"

section \<open>Message moderation\<close>

definition link_notice :: string where
  "link_notice = '':no_entry_sign: **Links are not allowed in this server!**''"

definition link_log_text :: "message \<Rightarrow> string" where
  "link_log_text m =
     '':x: '' @ user_mention (message_author m) @ '' tried to send a link in '' @
     channel_mention (message_channel m) @ ''.'' @ [CHR 0x0A] @
     ''**Message:** '' @ take 100 (message_content m) @ ''...''"

definition timeout_notice :: string where
  "timeout_notice =
     '':hourglass_flowing_sand: **You have been timed out for '' @
     str_nat (TIMEOUT_DURATION div 60) @ '' minutes**'' @ [CHR 0x0A] @
     ''Reason: Mentioning @everyone or @here without permission''"

definition mention_log_text :: "message \<Rightarrow> string" where
  "mention_log_text m =
     '':warning: '' @ user_mention (message_author m) @
     '' was timed out for mass mentions in '' @ channel_mention (message_channel m)"

definition on_message :: "platform \<Rightarrow> config \<Rightarrow> message \<Rightarrow> unit io" where
  "on_message plat cfg m =
     (if user_bot (message_author m) then skip
      else block
        [when_io (\<lambda>w. search LINK_PATTERN (message_content m) \<and>
                      user_id (message_author m) \<notin> whitelisted w)
           (block
              [call plat (MessageDelete (message_id m)),
               send_dm plat (message_author m) link_notice,
               log_action plat cfg (message_guild m) (link_log_text m)]),
         when_io (\<lambda>w. list_ex (\<lambda>mention. py_in mention (lower (message_content m)))
                        [''@everyone'', ''@here''] \<and>
                      user_id (message_author m) \<notin> whitelisted w)
           (block
              [call plat (MessageDelete (message_id m)),
               call plat (MemberTimeout (user_id (message_author m)) TIMEOUT_DURATION
                  ''Mass mention violation''),
               send_dm plat (message_author m) timeout_notice,
               log_action plat cfg (message_guild m) (mention_log_text m)]),
         process_commands plat cfg m])"

datatype event =
    MessageCreated message
  | ChannelCreated channel
  | RoleCreated role
  | MemberBanned guild user

fun dispatch :: "platform \<Rightarrow> config \<Rightarrow> event \<Rightarrow> unit io" where
  \<comment> \<open>the handlers registered with \<open>@bot.event\<close>\<close>
  "dispatch plat cfg (MessageCreated m) = on_message plat cfg m"
| "dispatch plat cfg (ChannelCreated c) = on_guild_channel_create plat cfg c"
| "dispatch plat cfg (RoleCreated r) = on_guild_role_create plat cfg r"
| "dispatch plat cfg (MemberBanned g u) = on_member_ban plat cfg g u"

section \<open>The vocabulary of the specification\<close>

definition quiet :: "platform \<Rightarrow> bool" where
  \<comment> \<open>a platform on which every primitive returns normally\<close>
  "quiet plat = (\<forall>h a. raises plat h a = None)"

definition mass_mention :: "string \<Rightarrow> bool" where
  \<comment> \<open>the lowercased text contains \<open>@everyone\<close> or \<open>@here\<close>\<close>
  "mass_mention s = (sublist ''@everyone'' (lower s) \<or> sublist ''@here'' (lower s))"

definition logged :: "config \<Rightarrow> guild \<Rightarrow> string \<Rightarrow> action list \<Rightarrow> bool" where
  \<comment> \<open>\<open>ls\<close> is what logging \<open>text\<close> comes to: one embed with that description sent to
      the log channel of the guild, or nothing when the guild has no such channel\<close>
  "logged cfg g text ls =
     (case get_channel g (LOG_CHANNEL_ID cfg) of
        None \<Rightarrow> ls = []
      | Some lc \<Rightarrow>
          (\<exists>ts. ls = [ChannelSend lc
                   (Embed \<lparr>description = text, color = Orange, timestamp = ts\<rparr>)]))"

definition delete_and_warn :: "config \<Rightarrow> message \<Rightarrow> action list \<Rightarrow> bool" where
  \<comment> \<open>the actions of the verdict DeleteAndWarn: delete, direct message, log\<close>
  "delete_and_warn cfg m ls =
     (\<exists>lg. logged cfg (message_guild m) (link_log_text m) lg \<and>
        ls = [MessageDelete (message_id m),
              UserSend (user_id (message_author m)) (security_alert link_notice)] @ lg)"

definition timeout_and_warn :: "config \<Rightarrow> message \<Rightarrow> action list \<Rightarrow> bool" where
  \<comment> \<open>the actions of the verdict TimeoutAndWarn: delete, timeout of 600 seconds, direct
      message, log\<close>
  "timeout_and_warn cfg m ls =
     (\<exists>lg. logged cfg (message_guild m) (mention_log_text m) lg \<and>
        ls = [MessageDelete (message_id m),
              MemberTimeout (user_id (message_author m)) 600 ''Mass mention violation'',
              UserSend (user_id (message_author m)) (security_alert timeout_notice)] @ lg)"

fun structural :: "event \<Rightarrow> (guild \<times> audit_action) option" where
  \<comment> \<open>the structural-change events, with the guild and the audit-log action to look up\<close>
  "structural (MessageCreated m) = None"
| "structural (ChannelCreated c) = Some (channel_guild c, channel_create)"
| "structural (RoleCreated r) = Some (role_guild r, role_create)"
| "structural (MemberBanned g u) = Some (g, ban)"

definition most_recent :: "guild \<Rightarrow> audit_action \<Rightarrow> audit_entry option" where
  \<comment> \<open>the most recent audit-log entry of the given action, if there is one\<close>
  "most_recent g a = find (\<lambda>e. entry_action e = a) (guild_audit g)"



fun banned_by :: "action \<Rightarrow> int list" where
  "banned_by (Ban u reason) = [u]"
| "banned_by a = []"

definition banned :: "action list \<Rightarrow> int list" where
  \<comment> \<open>the principals that a run of calls bans, in order\<close>
  "banned ls = concat (map banned_by ls)"



fun absorbed :: "action \<Rightarrow> exn \<Rightarrow> bool" where
  \<comment> \<open>the one failure a try/except of the bot catches: a direct message refused with
      \<open>Forbidden\<close>\<close>
  "absorbed (UserSend u text) Forbidden = True"
| "absorbed a e = False"

definition fails :: "platform \<Rightarrow> action list \<Rightarrow> action \<Rightarrow> exn \<Rightarrow> bool" where
  \<comment> \<open>made after the calls \<open>h\<close>, the call \<open>a\<close> is answered with the exception \<open>e\<close>, and
      nothing absorbs it\<close>
  "fails plat h a e = (raises plat h a = Some e \<and> \<not> absorbed a e)"

definition clean :: "platform \<Rightarrow> action list \<Rightarrow> action list \<Rightarrow> bool" where
  \<comment> \<open>none of the calls \<open>n\<close>, made after the calls \<open>h0\<close>, fails\<close>
  "clean plat h0 n = (\<forall>h a rest e. n = h @ a # rest \<longrightarrow> \<not> fails plat (h0 @ h) a e)"

definition strict :: "platform \<Rightarrow> unit io \<Rightarrow> bool" where
  \<comment> \<open>the program only adds calls; it returns normally exactly when none of them fails,
      and otherwise ends in the exception of the failing call, which is its last call\<close>
  "strict plat p =
     (\<forall>w. \<exists>n. calls (snd (p w)) = calls w @ n \<and>
        (case fst (p w) of
           Inr u \<Rightarrow> clean plat (calls w) n
         | Inl e \<Rightarrow> (\<exists>h a. n = h @ [a] \<and> clean plat (calls w) h \<and>
                        fails plat (calls w @ h) a e)))"



definition keeps_allowlist :: "unit io \<Rightarrow> bool" where
  "keeps_allowlist p = (\<forall>w. whitelisted (snd (p w)) = whitelisted w)"


fun unwhitelists :: "platform \<Rightarrow> event \<Rightarrow> int \<Rightarrow> bool" where
  \<comment> \<open>the event is a message that invokes \<open>unwhitelist\<close> on the given principal\<close>
  "unwhitelists plat (MessageCreated m) p =
     (case get_context plat m of
        Some (Unwhitelist, Some member) \<Rightarrow> user_id member = p
      | _ \<Rightarrow> False)"
| "unwhitelists plat ev p = False"

section \<open>A small guild for concrete runs\<close>

definition demo_config :: config where
  "demo_config = \<lparr>OWNER_ID = 1, LOG_CHANNEL_ID = 99\<rparr>"

definition demo_owner :: user where
  "demo_owner = \<lparr>user_id = 1, user_bot = False, user_mention = ''<@1>'', user_str = ''owner''\<rparr>"

definition demo_self :: user where
  "demo_self = \<lparr>user_id = 2, user_bot = True, user_mention = ''<@2>'', user_str = ''amaze''\<rparr>"

definition demo_mallory :: user where
  "demo_mallory = \<lparr>user_id = 7, user_bot = False, user_mention = ''<@7>'', user_str = ''mallory''\<rparr>"

definition demo_feed_bot :: user where
  "demo_feed_bot = \<lparr>user_id = 8, user_bot = True, user_mention = ''<@8>'', user_str = ''feed''\<rparr>"

definition demo_guild :: guild where
  "demo_guild = \<lparr>guild_id = 5, guild_channels = [10, 99],
     guild_audit = [\<lparr>entry_action = ban, entry_user = demo_mallory\<rparr>,
                    \<lparr>entry_action = channel_create, entry_user = demo_mallory\<rparr>,
                    \<lparr>entry_action = role_create, entry_user = demo_owner\<rparr>,
                    \<lparr>entry_action = ban, entry_user = demo_owner\<rparr>]\<rparr>"

definition demo_channel :: channel where
  "demo_channel = \<lparr>channel_id = 10, channel_name = ''general'', channel_mention = ''<#10>'',
     channel_guild = demo_guild\<rparr>"

definition demo_role :: role where
  "demo_role = \<lparr>role_id = 30, role_name = ''mods'', role_guild = demo_guild\<rparr>"

definition demo_message :: "user \<Rightarrow> string \<Rightarrow> message" where
  "demo_message u text = \<lparr>message_id = 100, message_author = u, message_content = text,
     message_channel = demo_channel, message_guild = demo_guild\<rparr>"

definition demo_invocation :: "user \<Rightarrow> invocation" where
  "demo_invocation u = \<lparr>ctx_author = u, ctx_channel = demo_channel, ctx_guild = demo_guild\<rparr>"

definition demo_get_context :: "message \<Rightarrow> (command \<times> user option) option" where
  \<comment> \<open>the parser on the two command messages of the demo guild\<close>
  "demo_get_context m =
     (if message_content m = ''!whitelist <@7>'' then Some (Whitelist, Some demo_mallory)
      else if message_content m = ''!unwhitelist <@1>'' then Some (Unwhitelist, Some demo_owner)
      else None)"

definition demo_platform :: platform where
  \<comment> \<open>every primitive succeeds\<close>
  "demo_platform = \<lparr>raises = (\<lambda>h a. None), utcnow = (\<lambda>h. 0), is_owner = (\<lambda>u. u = 1),
     client_user = demo_self, get_context = demo_get_context\<rparr>"

definition raises_once_gone :: "action list \<Rightarrow> action \<Rightarrow> exn option" where
  \<comment> \<open>deleting a message that was deleted before raises \<open>NotFound\<close>\<close>
  "raises_once_gone h a =
     (case a of
        MessageDelete i \<Rightarrow> if MessageDelete i \<in> set h then Some NotFound else None
      | _ \<Rightarrow> None)"

definition demo_strict_platform :: platform where
  "demo_strict_platform = \<lparr>raises = raises_once_gone, utcnow = (\<lambda>h. 0), is_owner = (\<lambda>u. u = 1),
     client_user = demo_self, get_context = demo_get_context\<rparr>"





section \<open>Regular expressions: correctness of the matcher\<close>

inductive_cases matches_FailE: "matches Fail w"
inductive_cases matches_EpsE: "matches Eps w"
inductive_cases matches_LitE: "matches (Lit c) w"
inductive_cases matches_NonSpaceE: "matches NonSpace w"
inductive_cases matches_CatE: "matches (Cat r s) w"
inductive_cases matches_AltE: "matches (Alt r s) w"

lemma matches_Fail: "matches Fail w = False"
  by (auto elim: matches_FailE)

lemma matches_Eps: "matches Eps w = (w = [])"
  by (auto elim: matches_EpsE intro: m_eps)

lemma matches_Lit: "matches (Lit c) w = (w = [c])"
  by (auto elim: matches_LitE intro: m_lit)

lemma matches_NonSpace: "matches NonSpace w = (\<exists>c. w = [c] \<and> \<not> py_isspace c)"
  by (auto elim: matches_NonSpaceE intro: m_nonspace)

lemma matches_Cat: "matches (Cat r s) w = (\<exists>u v. w = u @ v \<and> matches r u \<and> matches s v)"
  by (blast elim: matches_CatE intro: m_cat)

lemma matches_Alt: "matches (Alt r s) w = (matches r w \<or> matches s w)"
  by (auto elim: matches_AltE intro: m_alt1 m_alt2)

lemma nullable_matches: "nullable r = matches r []"
  by (induction r) (auto simp: matches_Fail matches_Eps matches_Lit matches_NonSpace
      matches_Cat matches_Alt intro: m_rep0)

lemma matches_Rep_split:
  assumes "matches q w" and "q = Rep r" and "w = c # t"
  shows "\<exists>u v. t = u @ v \<and> matches r (c # u) \<and> matches (Rep r) v"
  using assms
proof (induction q w arbitrary: t rule: matches.induct)
  case (m_rep r' u v)
  show ?case
  proof (cases u)
    case Nil
    with m_rep show ?thesis by simp
  next
    case (Cons d u')
    with m_rep have "t = u' @ v" "matches r (c # u')" "matches (Rep r) v"
      by auto
    then show ?thesis by blast
  qed
qed simp_all

lemma matches_Rep_Cons:
  "matches (Rep r) (c # t) = (\<exists>u v. t = u @ v \<and> matches r (c # u) \<and> matches (Rep r) v)"
proof
  assume "matches (Rep r) (c # t)"
  then show "\<exists>u v. t = u @ v \<and> matches r (c # u) \<and> matches (Rep r) v"
    by (rule matches_Rep_split) simp_all
next
  assume "\<exists>u v. t = u @ v \<and> matches r (c # u) \<and> matches (Rep r) v"
  then obtain u v where "t = u @ v" "matches r (c # u)" "matches (Rep r) v"
    by blast
  then show "matches (Rep r) (c # t)"
    using m_rep [of r "c # u" v] by simp
qed

lemma deriv_matches: "matches (deriv c r) w = matches r (c # w)"
proof (induction r arbitrary: w)
  case (Cat r s)
  show ?case
  proof (cases "nullable r")
    case True
    then have "matches r []" by (simp add: nullable_matches)
    then show ?thesis
      using True Cat
      by (auto simp: matches_Cat matches_Alt Cons_eq_append_conv)
  next
    case False
    then have "\<not> matches r []" by (simp add: nullable_matches)
    then show ?thesis
      using False Cat
      by (auto simp: matches_Cat Cons_eq_append_conv)
  qed
next
  case (Rep r)
  then show ?case
    by (simp add: matches_Cat matches_Rep_Cons)
qed (auto simp: matches_Fail matches_Eps matches_Lit matches_NonSpace matches_Alt)

lemma match_here_iff: "match_here r s = (\<exists>p q. s = p @ q \<and> matches r p)"
proof (induction s arbitrary: r)
  case Nil
  have "matches r [] \<Longrightarrow> \<exists>p q. [] = p @ q \<and> matches r p"
    by (intro exI [of _ "[]"]) simp
  then show ?case by (auto simp: nullable_matches)
next
  case (Cons c cs)
  show ?case
  proof (cases "nullable r")
    case True
    then have "matches r []" by (simp add: nullable_matches)
    then have "\<exists>p q. c # cs = p @ q \<and> matches r p"
      by (intro exI [of _ "[]"] exI [of _ "c # cs"]) simp
    with True show ?thesis by simp
  next
    case False
    then have no: "\<not> matches r []" by (simp add: nullable_matches)
    have "match_here r (c # cs) = (\<exists>p q. cs = p @ q \<and> matches r (c # p))"
      using False Cons [of "deriv c r"] by (simp add: deriv_matches)
    also have "\<dots> = (\<exists>p q. c # cs = p @ q \<and> matches r p)"
      using no by (auto simp: Cons_eq_append_conv)
    finally show ?thesis .
  qed
qed

lemma search_iff: "search r s = (\<exists>a p b. s = a @ p @ b \<and> matches r p)"
proof (induction s)
  case Nil
  have "matches r [] \<Longrightarrow> \<exists>a p b. [] = a @ p @ b \<and> matches r p"
    by (intro exI [of _ "[]"]) simp
  then show ?case by (auto simp: nullable_matches)
next
  case (Cons c cs)
  have "search r (c # cs) = (match_here r (c # cs) \<or> search r cs)"
    by simp
  also have "\<dots> = ((\<exists>p q. c # cs = p @ q \<and> matches r p) \<or> (\<exists>a p b. cs = a @ p @ b \<and> matches r p))"
    by (simp only: match_here_iff Cons)
  also have "\<dots> = (\<exists>a p b. c # cs = a @ p @ b \<and> matches r p)"
  proof
    assume "(\<exists>p q. c # cs = p @ q \<and> matches r p) \<or> (\<exists>a p b. cs = a @ p @ b \<and> matches r p)"
    then show "\<exists>a p b. c # cs = a @ p @ b \<and> matches r p"
    proof
      assume "\<exists>p q. c # cs = p @ q \<and> matches r p"
      then obtain p q where "c # cs = [] @ p @ q" "matches r p" by auto
      then show ?thesis by blast
    next
      assume "\<exists>a p b. cs = a @ p @ b \<and> matches r p"
      then obtain a p b where "c # cs = (c # a) @ p @ b" "matches r p" by auto
      then show ?thesis by blast
    qed
  next
    assume "\<exists>a p b. c # cs = a @ p @ b \<and> matches r p"
    then obtain a p b where eq: "c # cs = a @ p @ b" and m: "matches r p" by blast
    show "(\<exists>p q. c # cs = p @ q \<and> matches r p) \<or> (\<exists>a p b. cs = a @ p @ b \<and> matches r p)"
    proof (cases a)
      case Nil
      with eq m show ?thesis by auto
    next
      case (Cons d a')
      with eq have "cs = a' @ p @ b" by simp
      with m show ?thesis by blast
    qed
  qed
  finally show ?case .
qed

lemma matches_Word: "matches (Word w) u = (u = w)"
  by (induction w arbitrary: u) (auto simp: matches_Eps matches_Cat matches_Lit)

lemma matches_Rep_NonSpace_all:
  assumes "matches q w" and "q = Rep NonSpace"
  shows "\<forall>c\<in>set w. \<not> py_isspace c"
  using assms
  by (induction q w rule: matches.induct) (auto simp: matches_NonSpace)

lemma all_matches_Rep_NonSpace:
  "\<forall>c\<in>set w. \<not> py_isspace c \<Longrightarrow> matches (Rep NonSpace) w"
proof (induction w)
  case Nil
  show ?case by (rule m_rep0)
next
  case (Cons c w)
  then have "matches NonSpace [c]" "matches (Rep NonSpace) w"
    by (auto intro: m_nonspace)
  then have "matches (Rep NonSpace) ([c] @ w)" by (rule m_rep)
  then show ?case by simp
qed

lemma matches_Rep_NonSpace: "matches (Rep NonSpace) w = (\<forall>c\<in>set w. \<not> py_isspace c)"
  using matches_Rep_NonSpace_all all_matches_Rep_NonSpace by blast

lemma matches_Cat_Eps: "matches (Cat Eps r) w = matches r w"
  by (simp add: matches_Cat matches_Eps)

lemma matches_Cat_Lit: "matches (Cat (Lit c) r) w = (\<exists>t. w = c # t \<and> matches r t)"
  by (auto simp: matches_Cat matches_Lit)

lemma matches_Cat_NonSpace:
  "matches (Cat NonSpace r) w = (\<exists>c t. w = c # t \<and> \<not> py_isspace c \<and> matches r t)"
proof
  assume "matches (Cat NonSpace r) w"
  then show "\<exists>c t. w = c # t \<and> \<not> py_isspace c \<and> matches r t"
    by (auto simp: matches_Cat matches_NonSpace)
next
  assume "\<exists>c t. w = c # t \<and> \<not> py_isspace c \<and> matches r t"
  then obtain c t where w: "w = [c] @ t" and "matches NonSpace [c]" "matches r t"
    by (auto intro: m_nonspace)
  then have "matches (Cat NonSpace r) ([c] @ t)"
    by (intro m_cat)
  with w show "matches (Cat NonSpace r) w"
    by simp
qed

lemma matches_Cat_Alt: "matches (Cat (Alt a b) r) w = (matches (Cat a r) w \<or> matches (Cat b r) w)"
  by (auto simp: matches_Cat matches_Alt)

lemma matches_Cat_Word: "matches (Cat (Word x) r) w = (\<exists>t. w = x @ t \<and> matches r t)"
  by (auto simp: matches_Cat matches_Word)

lemma matches_Plus_NonSpace:
  "matches (Plus NonSpace) w = (\<exists>c t. w = c # t \<and> \<not> py_isspace c \<and> (\<forall>d\<in>set t. \<not> py_isspace d))"
  by (simp add: Plus_def matches_Cat_NonSpace matches_Rep_NonSpace)

lemma matches_LINK_PATTERN:
  "matches LINK_PATTERN p =
     (\<exists>c t. \<not> py_isspace c \<and> (\<forall>d\<in>set t. \<not> py_isspace d) \<and>
        (p = ''http://'' @ c # t \<or> p = ''https://'' @ c # t \<or> p = ''www.'' @ c # t))"
  unfolding LINK_PATTERN_def Opt_def
  by (auto simp: matches_Alt matches_Cat_Word matches_Cat_Alt matches_Cat_Lit matches_Cat_Eps
      matches_Plus_NonSpace simp del: Word.simps)

lemma search_LINK_PATTERN: "search LINK_PATTERN s = url_like s"
proof
  assume "search LINK_PATTERN s"
  then obtain a p b where s: "s = a @ p @ b" and "matches LINK_PATTERN p"
    by (auto simp: search_iff)
  then obtain c t where c: "\<not> py_isspace c"
    and p: "p = ''http://'' @ c # t \<or> p = ''https://'' @ c # t \<or> p = ''www.'' @ c # t"
    by (auto simp: matches_LINK_PATTERN)
  from p s have "s = a @ ''http://'' @ c # (t @ b) \<or> s = a @ ''https://'' @ c # (t @ b)
      \<or> s = a @ ''www.'' @ c # (t @ b)"
    by auto
  with c show "url_like s"
    unfolding url_like_def by blast
next
  assume "url_like s"
  then obtain a c b where c: "\<not> py_isspace c"
    and s: "s = a @ ''http://'' @ c # b \<or> s = a @ ''https://'' @ c # b \<or> s = a @ ''www.'' @ c # b"
    unfolding url_like_def by blast
  define p where "p = take (length s - length a - length b) (drop (length a) s)"
  from s have sp: "s = a @ p @ b"
    and p: "p = ''http://'' @ [c] \<or> p = ''https://'' @ [c] \<or> p = ''www.'' @ [c]"
    unfolding p_def by auto
  from p c have "matches LINK_PATTERN p"
    by (auto simp: matches_LINK_PATTERN)
  with sp show "search LINK_PATTERN s"
    unfolding search_iff by blast
qed

section \<open>Running the handlers\<close>

lemma timeout_minutes: "str_nat (TIMEOUT_DURATION div 60) = ''10''"
  by (simp add: TIMEOUT_DURATION_def str_nat.simps digit_char_def)

lemma block_Nil: "block [] = skip"
  by (simp add: block_def)

lemma block_Cons: "block (p # ps) = then_do p (block ps)"
  by (simp add: block_def)

lemma then_do_Inr: "p w = (Inr (), w') \<Longrightarrow> then_do p q w = q w'"
  by (simp add: then_do_def)

lemma then_do_skip: "then_do p skip = p"
  by (auto simp: then_do_def skip_def fun_eq_iff split: prod.splits sum.splits)

lemma call_quiet: "quiet plat \<Longrightarrow> call plat a w = (Inr (), w\<lparr>calls := calls w @ [a]\<rparr>)"
  by (simp add: call_def quiet_def)

lemma send_dm_quiet:
  "quiet plat \<Longrightarrow>
   send_dm plat u t w = (Inr (), w\<lparr>calls := calls w @ [UserSend (user_id u) (security_alert t)]\<rparr>)"
  by (simp add: send_dm_def try_except_def call_quiet)

lemma log_action_quiet:
  assumes "quiet plat"
  shows "\<exists>lg. logged cfg g t lg \<and> log_action plat cfg g t w = (Inr (), w\<lparr>calls := calls w @ lg\<rparr>)"
proof (cases "get_channel g (LOG_CHANNEL_ID cfg)")
  case None
  then have "logged cfg g t []" "log_action plat cfg g t w = (Inr (), w\<lparr>calls := calls w @ []\<rparr>)"
    by (simp_all add: logged_def log_action_def skip_def)
  then show ?thesis by blast
next
  case (Some lc)
  let ?a = "ChannelSend lc (Embed \<lparr>description = t, color = Orange, timestamp = utcnow plat (calls w)\<rparr>)"
  from Some have "logged cfg g t [?a]"
    by (simp add: logged_def)
  moreover from Some assms have "log_action plat cfg g t w = (Inr (), w\<lparr>calls := calls w @ [?a]\<rparr>)"
    by (simp add: log_action_def call_quiet)
  ultimately show ?thesis by blast
qed

lemma send_dm_quiet_call:
  "quiet plat \<Longrightarrow> send_dm plat u t = call plat (UserSend (user_id u) (security_alert t))"
  by (rule ext) (simp add: send_dm_quiet call_quiet)

lemma run_calls_quiet:
  "quiet plat \<Longrightarrow> block (map (call plat) as @ ps) w = block ps (w\<lparr>calls := calls w @ as\<rparr>)"
proof (induction as arbitrary: w)
  case Nil
  show ?case by simp
next
  case (Cons a as)
  then show ?case
    by (simp add: block_Cons then_do_def call_quiet)
qed

lemma verdict_quiet:
  assumes "quiet plat"
  shows "\<exists>lg. logged cfg g t lg \<and>
     block (map (call plat) as @ [log_action plat cfg g t]) w
       = (Inr (), w\<lparr>calls := calls w @ as @ lg\<rparr>)"
proof -
  obtain lg where "logged cfg g t lg"
    and "log_action plat cfg g t (w\<lparr>calls := calls w @ as\<rparr>)
        = (Inr (), w\<lparr>calls := calls w @ as\<rparr>\<lparr>calls := calls (w\<lparr>calls := calls w @ as\<rparr>) @ lg\<rparr>)"
    using log_action_quiet [OF assms] by blast
  then show ?thesis
    using assms by (auto simp: run_calls_quiet block_Cons block_Nil then_do_skip)
qed

lemma link_block_quiet:
  assumes "quiet plat"
  shows "\<exists>ls. delete_and_warn cfg m ls \<and>
     block [call plat (MessageDelete (message_id m)),
            send_dm plat (message_author m) link_notice,
            log_action plat cfg (message_guild m) (link_log_text m)] w
       = (Inr (), w\<lparr>calls := calls w @ ls\<rparr>)"
  using verdict_quiet [OF assms, of cfg "message_guild m" "link_log_text m"
      "[MessageDelete (message_id m),
        UserSend (user_id (message_author m)) (security_alert link_notice)]" w] assms
  by (auto simp: delete_and_warn_def send_dm_quiet_call)

lemma mention_block_quiet:
  assumes "quiet plat"
  shows "\<exists>ls. timeout_and_warn cfg m ls \<and>
     block [call plat (MessageDelete (message_id m)),
            call plat (MemberTimeout (user_id (message_author m)) TIMEOUT_DURATION
               ''Mass mention violation''),
            send_dm plat (message_author m) timeout_notice,
            log_action plat cfg (message_guild m) (mention_log_text m)] w
       = (Inr (), w\<lparr>calls := calls w @ ls\<rparr>)"
  using verdict_quiet [OF assms, of cfg "message_guild m" "mention_log_text m"
      "[MessageDelete (message_id m),
        MemberTimeout (user_id (message_author m)) 600 ''Mass mention violation'',
        UserSend (user_id (message_author m)) (security_alert timeout_notice)]" w] assms
  by (auto simp: timeout_and_warn_def send_dm_quiet_call TIMEOUT_DURATION_def)

lemma on_message_quiet:
  assumes "quiet plat" and "\<not> user_bot (message_author m)"
  shows "\<exists>l1 l2.
     (if search LINK_PATTERN (message_content m) \<and> user_id (message_author m) \<notin> whitelisted w
      then delete_and_warn cfg m l1 else l1 = []) \<and>
     (if mass_mention (message_content m) \<and> user_id (message_author m) \<notin> whitelisted w
      then timeout_and_warn cfg m l2 else l2 = []) \<and>
     on_message plat cfg m w
       = process_commands plat cfg m (w\<lparr>calls := calls w @ l1 @ l2\<rparr>)"
proof -
  let ?link = "search LINK_PATTERN (message_content m) \<and> user_id (message_author m) \<notin> whitelisted w"
  let ?ment = "mass_mention (message_content m) \<and> user_id (message_author m) \<notin> whitelisted w"
  let ?B1 = "block [call plat (MessageDelete (message_id m)),
            send_dm plat (message_author m) link_notice,
            log_action plat cfg (message_guild m) (link_log_text m)]"
  let ?B2 = "block [call plat (MessageDelete (message_id m)),
            call plat (MemberTimeout (user_id (message_author m)) TIMEOUT_DURATION
               ''Mass mention violation''),
            send_dm plat (message_author m) timeout_notice,
            log_action plat cfg (message_guild m) (mention_log_text m)]"
  obtain l1 where l1: "if ?link then delete_and_warn cfg m l1 else l1 = []"
    and r1: "when_io (\<lambda>w. search LINK_PATTERN (message_content m) \<and>
                user_id (message_author m) \<notin> whitelisted w) ?B1 w
         = (Inr (), w\<lparr>calls := calls w @ l1\<rparr>)"
  proof (cases ?link)
    case True
    then show ?thesis
      using link_block_quiet [OF assms(1), of cfg m w] that
      by (auto simp: when_io_def)
  next
    case False
    then show ?thesis
      using that [of "[]"] by (auto simp: when_io_def skip_def)
  qed
  let ?w1 = "w\<lparr>calls := calls w @ l1\<rparr>"
  obtain l2 where l2: "if ?ment then timeout_and_warn cfg m l2 else l2 = []"
    and r2: "when_io (\<lambda>w. list_ex (\<lambda>mention. py_in mention (lower (message_content m)))
                        [''@everyone'', ''@here''] \<and>
                user_id (message_author m) \<notin> whitelisted w) ?B2 ?w1
         = (Inr (), ?w1\<lparr>calls := calls ?w1 @ l2\<rparr>)"
  proof (cases ?ment)
    case True
    then show ?thesis
      using mention_block_quiet [OF assms(1), of cfg m ?w1] that
      by (auto simp: when_io_def mass_mention_def py_in_def)
  next
    case False
    then show ?thesis
      using that [of "[]"] by (auto simp: when_io_def skip_def mass_mention_def py_in_def)
  qed
  have "on_message plat cfg m w
       = process_commands plat cfg m (w\<lparr>calls := calls w @ l1 @ l2\<rparr>)"
    using assms r1 r2
    by (simp add: on_message_def block_Cons block_Nil then_do_skip then_do_Inr)
  with l1 l2 show ?thesis by blast
qed







lemmas demo_defs = demo_config_def demo_owner_def demo_self_def demo_mallory_def
  demo_feed_bot_def demo_guild_def demo_channel_def demo_role_def demo_message_def
  demo_invocation_def demo_platform_def startup_def

lemmas pattern_defs = LINK_PATTERN_def Opt_def Plus_def py_isspace_def

lemma quiet_demo_platform: "quiet demo_platform"
  by (simp add: quiet_def demo_platform_def)

section \<open>Where a handler stops when a primitive fails\<close>

lemma clean_Nil: "clean plat h0 []"
  by (simp add: clean_def)

lemma clean_single: "clean plat h0 [a] = (\<forall>e. \<not> fails plat h0 a e)"
  by (auto simp: clean_def Cons_eq_append_conv)

lemma clean_append:
  "clean plat h0 (n1 @ n2) = (clean plat h0 n1 \<and> clean plat (h0 @ n1) n2)"
proof
  assume c: "clean plat h0 (n1 @ n2)"
  have "clean plat h0 n1"
    unfolding clean_def
  proof (intro allI impI)
    fix h a rest e
    assume "n1 = h @ a # rest"
    then have "n1 @ n2 = h @ a # (rest @ n2)" by simp
    with c show "\<not> fails plat (h0 @ h) a e"
      unfolding clean_def by blast
  qed
  moreover have "clean plat (h0 @ n1) n2"
    unfolding clean_def
  proof (intro allI impI)
    fix h a rest e
    assume "n2 = h @ a # rest"
    then have "n1 @ n2 = (n1 @ h) @ a # rest" by simp
    with c have "\<not> fails plat (h0 @ (n1 @ h)) a e"
      unfolding clean_def by blast
    then show "\<not> fails plat ((h0 @ n1) @ h) a e" by simp
  qed
  ultimately show "clean plat h0 n1 \<and> clean plat (h0 @ n1) n2" by blast
next
  assume c: "clean plat h0 n1 \<and> clean plat (h0 @ n1) n2"
  show "clean plat h0 (n1 @ n2)"
    unfolding clean_def
  proof (intro allI impI)
    fix h a rest e
    assume "n1 @ n2 = h @ a # rest"
    then consider us where "n1 = h @ us" "us @ n2 = a # rest"
      | us where "n1 @ us = h" "n2 = us @ a # rest"
      by (auto simp: append_eq_append_conv2)
    then show "\<not> fails plat (h0 @ h) a e"
    proof cases
      case 1
      show ?thesis
      proof (cases us)
        case Nil
        with 1 have "n2 = [] @ a # rest" "h = n1" by simp_all
        with c have "\<not> fails plat ((h0 @ n1) @ []) a e"
          unfolding clean_def by blast
        with \<open>h = n1\<close> show ?thesis by simp
      next
        case (Cons b us')
        with 1 have "n1 = h @ a # us'" by simp
        with c show ?thesis
          unfolding clean_def by blast
      qed
    next
      case 2
      with c have "\<not> fails plat ((h0 @ n1) @ us) a e"
        unfolding clean_def by blast
      with 2 show ?thesis by auto
    qed
  qed
qed




lemma strict_Inr:
  assumes "strict plat p" and "fst (p w) = Inr u"
  shows "\<exists>n. calls (snd (p w)) = calls w @ n \<and> clean plat (calls w) n"
proof -
  from assms(1) obtain n where n: "calls (snd (p w)) = calls w @ n"
    and c: "case fst (p w) of Inr u \<Rightarrow> clean plat (calls w) n
      | Inl e \<Rightarrow> (\<exists>h a. n = h @ [a] \<and> clean plat (calls w) h \<and> fails plat (calls w @ h) a e)"
    unfolding strict_def by blast
  from c assms(2) have "clean plat (calls w) n" by simp
  with n show ?thesis by blast
qed

lemma strict_Inl:
  assumes "strict plat p" and "fst (p w) = Inl e"
  shows "\<exists>h a. calls (snd (p w)) = calls w @ h @ [a] \<and> clean plat (calls w) h \<and>
     fails plat (calls w @ h) a e"
proof -
  from assms(1) obtain n where n: "calls (snd (p w)) = calls w @ n"
    and c: "case fst (p w) of Inr u \<Rightarrow> clean plat (calls w) n
      | Inl e \<Rightarrow> (\<exists>h a. n = h @ [a] \<and> clean plat (calls w) h \<and> fails plat (calls w @ h) a e)"
    unfolding strict_def by blast
  from c assms(2) obtain h a where "n = h @ [a]" "clean plat (calls w) h"
    "fails plat (calls w @ h) a e"
    by auto
  with n show ?thesis by auto
qed

lemma strictI:
  assumes "\<And>w u. fst (p w) = Inr u \<Longrightarrow> \<exists>n. calls (snd (p w)) = calls w @ n \<and> clean plat (calls w) n"
    and "\<And>w e. fst (p w) = Inl e \<Longrightarrow>
      \<exists>h a. calls (snd (p w)) = calls w @ h @ [a] \<and> clean plat (calls w) h \<and>
        fails plat (calls w @ h) a e"
  shows "strict plat p"
  unfolding strict_def
proof
  fix w
  show "\<exists>n. calls (snd (p w)) = calls w @ n \<and>
      (case fst (p w) of Inr u \<Rightarrow> clean plat (calls w) n
       | Inl e \<Rightarrow> \<exists>h a. n = h @ [a] \<and> clean plat (calls w) h \<and> fails plat (calls w @ h) a e)"
  proof (cases "fst (p w)")
    case (Inl e)
    with assms(2) [of w e] show ?thesis by auto
  next
    case (Inr u)
    with assms(1) [of w u] show ?thesis by auto
  qed
qed

lemma strict_skip: "strict plat skip"
  by (rule strictI) (simp_all add: skip_def clean_Nil)

lemma strict_print: "strict plat (print line)"
  by (rule strictI) (simp_all add: print_def clean_Nil)

lemma strict_call:
  assumes "\<And>e. \<not> absorbed a e"
  shows "strict plat (call plat a)"
proof (rule strictI)
  fix w u
  assume "fst (call plat a w) = Inr u"
  then have "raises plat (calls w) a = None"
    by (simp add: call_def split: option.splits)
  then have "clean plat (calls w) [a]"
    by (simp add: clean_single fails_def)
  then show "\<exists>n. calls (snd (call plat a w)) = calls w @ n \<and> clean plat (calls w) n"
    by (intro exI [of _ "[a]"]) (simp add: call_def)
next
  fix w e
  assume "fst (call plat a w) = Inl e"
  then have "raises plat (calls w) a = Some e"
    by (simp add: call_def split: option.splits)
  with assms have "fails plat (calls w @ []) a e"
    by (simp add: fails_def)
  then show "\<exists>h b. calls (snd (call plat a w)) = calls w @ h @ [b] \<and> clean plat (calls w) h \<and>
      fails plat (calls w @ h) b e"
    by (intro exI [of _ "[]"] exI [of _ a]) (simp add: call_def clean_Nil)
qed

lemma strict_then_do:
  assumes p: "strict plat p" and q: "strict plat q"
  shows "strict plat (then_do p q)"
proof (rule strictI)
  fix w u
  assume f: "fst (then_do p q w) = Inr u"
  obtain r w1 where pw: "p w = (r, w1)" by (cases "p w")
  with f obtain u1 where r: "r = Inr u1" and fq: "fst (q w1) = Inr u"
    by (cases r) (auto simp: then_do_def)
  from strict_Inr [OF p, of w u1] pw r obtain n1 where n1: "calls w1 = calls w @ n1"
    "clean plat (calls w) n1" by auto
  from strict_Inr [OF q fq] obtain n2 where n2: "calls (snd (q w1)) = calls w1 @ n2"
    "clean plat (calls w1) n2" by auto
  from n1 n2 have "calls (snd (then_do p q w)) = calls w @ (n1 @ n2)"
    and "clean plat (calls w) (n1 @ n2)"
    using pw r by (simp_all add: then_do_def clean_append)
  then show "\<exists>n. calls (snd (then_do p q w)) = calls w @ n \<and> clean plat (calls w) n"
    by blast
next
  fix w e
  assume f: "fst (then_do p q w) = Inl e"
  obtain r w1 where pw: "p w = (r, w1)" by (cases "p w")
  show "\<exists>h a. calls (snd (then_do p q w)) = calls w @ h @ [a] \<and> clean plat (calls w) h \<and>
      fails plat (calls w @ h) a e"
  proof (cases r)
    case (Inl x)
    with pw f have "x = e" by (simp add: then_do_def)
    with Inl pw strict_Inl [OF p, of w e] show ?thesis
      by (simp add: then_do_def)
  next
    case (Inr u1)
    with pw f have fq: "fst (q w1) = Inl e" by (simp add: then_do_def)
    from strict_Inr [OF p, of w u1] pw Inr obtain n1 where n1: "calls w1 = calls w @ n1"
      "clean plat (calls w) n1" by auto
    from strict_Inl [OF q fq] obtain h a where h: "calls (snd (q w1)) = calls w1 @ h @ [a]"
      "clean plat (calls w1) h" "fails plat (calls w1 @ h) a e" by blast
    from n1 h have "calls (snd (then_do p q w)) = calls w @ (n1 @ h) @ [a]"
      and "clean plat (calls w) (n1 @ h)" and "fails plat (calls w @ (n1 @ h)) a e"
      using pw Inr by (simp_all add: then_do_def clean_append)
    then show ?thesis by blast
  qed
qed

lemma strict_block: "(\<And>p. p \<in> set ps \<Longrightarrow> strict plat p) \<Longrightarrow> strict plat (block ps)"
  by (induction ps) (simp_all add: block_Nil block_Cons strict_skip strict_then_do)

lemma strict_when_io: "strict plat p \<Longrightarrow> strict plat (when_io c p)"
  using strict_skip [of plat]
  unfolding strict_def when_io_def by simp


lemma strict_send_dm: "strict plat (send_dm plat u t)"
proof (rule strictI)
  fix w v
  let ?a = "UserSend (user_id u) (security_alert t)"
  assume "fst (send_dm plat u t w) = Inr v"
  then have "raises plat (calls w) ?a = None \<or> raises plat (calls w) ?a = Some Forbidden"
    by (auto simp: send_dm_def try_except_def call_def split: option.splits if_splits)
  then have "clean plat (calls w) [?a]"
    by (auto simp: clean_single fails_def)
  moreover have "calls (snd (send_dm plat u t w)) = calls w @ [?a]"
    by (simp add: send_dm_def try_except_def call_def print_def split: option.splits)
  ultimately show "\<exists>n. calls (snd (send_dm plat u t w)) = calls w @ n \<and> clean plat (calls w) n"
    by blast
next
  fix w e
  let ?a = "UserSend (user_id u) (security_alert t)"
  assume "fst (send_dm plat u t w) = Inl e"
  then have "raises plat (calls w) ?a = Some e" "e \<noteq> Forbidden"
    by (auto simp: send_dm_def try_except_def call_def print_def split: option.splits if_splits)
  then have "fails plat (calls w @ []) ?a e"
    by (cases e) (simp_all add: fails_def)
  moreover have "calls (snd (send_dm plat u t w)) = calls w @ [] @ [?a]"
    by (simp add: send_dm_def try_except_def call_def print_def split: option.splits)
  ultimately show "\<exists>h a. calls (snd (send_dm plat u t w)) = calls w @ h @ [a] \<and>
      clean plat (calls w) h \<and> fails plat (calls w @ h) a e"
    using clean_Nil by blast
qed

lemma strict_log_action: "strict plat (log_action plat cfg g t)"
proof (cases "get_channel g (LOG_CHANNEL_ID cfg)")
  case None
  then have "log_action plat cfg g t = skip"
    by (simp add: log_action_def fun_eq_iff)
  then show ?thesis by (simp add: strict_skip)
next
  case (Some lc)
  show ?thesis
    unfolding strict_def
  proof
    fix w :: world
    let ?a = "ChannelSend lc (Embed \<lparr>description = t, color = Orange, timestamp = utcnow plat (calls w)\<rparr>)"
    have eq: "log_action plat cfg g t w = call plat ?a w"
      using Some by (simp add: log_action_def)
    have "strict plat (call plat ?a)"
      by (rule strict_call) simp
    then show "\<exists>n. calls (snd (log_action plat cfg g t w)) = calls w @ n \<and>
      (case fst (log_action plat cfg g t w) of Inr u \<Rightarrow> clean plat (calls w) n
       | Inl e \<Rightarrow> \<exists>h a. n = h @ [a] \<and> clean plat (calls w) h \<and> fails plat (calls w @ h) a e)"
      unfolding eq strict_def by blast
  qed
qed

lemmas strict_intros = strict_skip strict_print strict_then_do strict_when_io strict_send_dm
  strict_log_action























lemma strict_link_block:
  "strict plat (when_io c1
     (block [call plat (MessageDelete i), send_dm plat u t1, log_action plat cfg g t2]))"
proof -
  have "strict plat (call plat (MessageDelete i))"
    by (rule strict_call) simp
  then show ?thesis
    by (auto intro!: strict_when_io strict_block strict_intros)
qed

lemma strict_mention_block:
  "strict plat (when_io c2
     (block [call plat (MessageDelete i), call plat (MemberTimeout j d r),
             send_dm plat u t1, log_action plat cfg g t2]))"
proof -
  have "strict plat (call plat (MessageDelete i))" "strict plat (call plat (MemberTimeout j d r))"
    by (rule strict_call, simp)+
  then show ?thesis
    by (auto intro!: strict_when_io strict_block strict_intros)
qed

lemma keeps_allowlistI: "(\<And>w. whitelisted (snd (p w)) = whitelisted w) \<Longrightarrow> keeps_allowlist p"
  by (simp add: keeps_allowlist_def)

lemma keeps_allowlistD: "keeps_allowlist p \<Longrightarrow> whitelisted (snd (p w)) = whitelisted w"
  by (simp add: keeps_allowlist_def)

lemma keeps_skip: "keeps_allowlist skip"
  by (simp add: keeps_allowlist_def skip_def)

lemma keeps_print: "keeps_allowlist (print line)"
  by (simp add: keeps_allowlist_def print_def)

lemma keeps_call: "keeps_allowlist (call plat a)"
  by (simp add: keeps_allowlist_def call_def)

lemma keeps_then_do:
  assumes p: "keeps_allowlist p" and q: "keeps_allowlist q"
  shows "keeps_allowlist (then_do p q)"
proof (rule keeps_allowlistI)
  fix w
  obtain r w1 where pw: "p w = (r, w1)" by (cases "p w")
  with keeps_allowlistD [OF p, of w] have "whitelisted w1 = whitelisted w" by simp
  with pw keeps_allowlistD [OF q, of w1] show "whitelisted (snd (then_do p q w)) = whitelisted w"
    by (cases r) (simp_all add: then_do_def)
qed

lemma keeps_block: "(\<And>p. p \<in> set ps \<Longrightarrow> keeps_allowlist p) \<Longrightarrow> keeps_allowlist (block ps)"
  by (induction ps) (simp_all add: block_Nil block_Cons keeps_skip keeps_then_do)

lemma keeps_when_io: "keeps_allowlist p \<Longrightarrow> keeps_allowlist (when_io c p)"
  by (simp add: keeps_allowlist_def when_io_def skip_def)

lemma keeps_for_each:
  "(\<And>x. x \<in> set xs \<Longrightarrow> keeps_allowlist (body x)) \<Longrightarrow> keeps_allowlist (for_each body xs)"
  by (induction xs) (simp_all add: keeps_skip keeps_then_do)

lemma keeps_send_dm: "keeps_allowlist (send_dm plat u t)"
  by (simp add: keeps_allowlist_def send_dm_def try_except_def call_def print_def
      split: option.splits)

lemma keeps_log_action: "keeps_allowlist (log_action plat cfg g t)"
  by (simp add: keeps_allowlist_def log_action_def call_def skip_def split: option.splits)

lemmas keeps_intros = keeps_skip keeps_print keeps_call keeps_then_do keeps_when_io
  keeps_send_dm keeps_log_action

lemma keeps_structural:
  "structural ev = Some ga \<Longrightarrow> keeps_allowlist (dispatch plat cfg ev)"
  by (cases ev)
    (auto simp: on_guild_channel_create_def on_guild_role_create_def on_member_ban_def
      intro!: keeps_for_each keeps_block keeps_intros)


lemma then_do_assoc: "then_do p (then_do q r) = then_do (then_do p q) r"
  by (rule ext) (simp add: then_do_def split: prod.splits sum.splits)

lemma on_message_parts:
  assumes "\<not> user_bot (message_author m)"
  shows "\<exists>p. strict plat p \<and> keeps_allowlist p \<and>
     on_message plat cfg m = then_do p (process_commands plat cfg m)"
proof -
  let ?A = "when_io (\<lambda>w. search LINK_PATTERN (message_content m) \<and>
                      user_id (message_author m) \<notin> whitelisted w)
           (block
              [call plat (MessageDelete (message_id m)),
               send_dm plat (message_author m) link_notice,
               log_action plat cfg (message_guild m) (link_log_text m)])"
  let ?B = "when_io (\<lambda>w. list_ex (\<lambda>mention. py_in mention (lower (message_content m)))
                        [''@everyone'', ''@here''] \<and>
                      user_id (message_author m) \<notin> whitelisted w)
           (block
              [call plat (MessageDelete (message_id m)),
               call plat (MemberTimeout (user_id (message_author m)) TIMEOUT_DURATION
                  ''Mass mention violation''),
               send_dm plat (message_author m) timeout_notice,
               log_action plat cfg (message_guild m) (mention_log_text m)])"
  have "strict plat (then_do ?A ?B)"
    by (intro strict_then_do strict_link_block strict_mention_block)
  moreover have "keeps_allowlist (then_do ?A ?B)"
    by (auto intro!: keeps_block keeps_intros)
  moreover have "on_message plat cfg m = then_do (then_do ?A ?B) (process_commands plat cfg m)"
    using assms
    by (simp add: on_message_def block_Cons block_Nil then_do_skip then_do_assoc)
  ultimately show ?thesis by blast
qed



lemma whitelisted_after_whitelist:
  "whitelisted (snd (whitelist plat cfg ctx member w)) =
     (if is_owner plat (user_id (ctx_author ctx))
      then insert (user_id member) (whitelisted w) else whitelisted w)"
proof -
  let ?rest = "block [call plat (ChannelSend (channel_id (ctx_channel ctx))
       (Text ('':white_check_mark: '' @ user_mention member @ '' has been whitelisted.''))),
     log_action plat cfg (ctx_guild ctx)
       ('':memo: '' @ user_mention (ctx_author ctx) @ '' whitelisted '' @ user_mention member)]"
  have "keeps_allowlist ?rest"
    by (auto intro!: keeps_block keeps_intros)
  from keeps_allowlistD [OF this] show ?thesis
    by (simp add: whitelist_def owner_only_def block_Cons [of _ "_ # _"] then_do_def)
qed

lemma whitelisted_after_unwhitelist:
  "whitelisted (snd (unwhitelist plat cfg ctx member w)) =
     (if is_owner plat (user_id (ctx_author ctx))
      then whitelisted w - {user_id member} else whitelisted w)"
proof -
  let ?rest = "block [call plat (ChannelSend (channel_id (ctx_channel ctx))
       (Text ('':x: '' @ user_mention member @ '' has been removed from whitelist.''))),
     log_action plat cfg (ctx_guild ctx)
       ('':memo: '' @ user_mention (ctx_author ctx) @ '' unwhitelisted '' @ user_mention member)]"
  have "keeps_allowlist ?rest"
    by (auto intro!: keeps_block keeps_intros)
  from keeps_allowlistD [OF this] show ?thesis
    by (simp add: unwhitelist_def owner_only_def block_Cons [of _ "_ # _"] then_do_def)
qed

lemma whitelisted_after_run_command:
  "whitelisted (snd (run_command plat cfg ctx cmd arg w)) =
     (if is_owner plat (user_id (ctx_author ctx))
      then (case arg of
              None \<Rightarrow> whitelisted w
            | Some member \<Rightarrow>
                (case cmd of
                   Whitelist \<Rightarrow> insert (user_id member) (whitelisted w)
                 | Unwhitelist \<Rightarrow> whitelisted w - {user_id member}))
      else whitelisted w)"
  by (cases arg; cases cmd)
    (simp_all add: whitelisted_after_whitelist whitelisted_after_unwhitelist owner_only_def)

lemma whitelisted_after_process_commands:
  "whitelisted (snd (process_commands plat cfg m w)) = whitelisted w \<or>
   (\<exists>cmd arg w1. get_context plat m = Some (cmd, arg) \<and> whitelisted w1 = whitelisted w \<and>
      whitelisted (snd (process_commands plat cfg m w)) =
        whitelisted (snd (run_command plat cfg (command_context m) cmd arg w1)))"
proof (cases "user_bot (message_author m) \<or> raises plat (calls w) (ProcessCommands (message_id m)) \<noteq> None
    \<or> get_context plat m = None")
  case True
  then have "whitelisted (snd (process_commands plat cfg m w)) = whitelisted w"
    by (auto simp: process_commands_def skip_def then_do_def call_def invoke_def
        split: option.splits)
  then show ?thesis by blast
next
  case False
  then obtain cmd arg where g: "get_context plat m = Some (cmd, arg)"
    by auto
  let ?w1 = "w\<lparr>calls := calls w @ [ProcessCommands (message_id m)]\<rparr>"
  from False g have "whitelisted (snd (process_commands plat cfg m w)) =
      whitelisted (snd (run_command plat cfg (command_context m) cmd arg ?w1))"
    by (simp add: process_commands_def then_do_def call_def invoke_def)
  moreover have "whitelisted ?w1 = whitelisted w" by simp
  ultimately show ?thesis
    using g by blast
qed

lemma whitelisted_after_on_message:
  "whitelisted (snd (on_message plat cfg m w)) = whitelisted w \<or>
   (\<exists>cmd arg w1. get_context plat m = Some (cmd, arg) \<and> whitelisted w1 = whitelisted w \<and>
      whitelisted (snd (on_message plat cfg m w)) =
        whitelisted (snd (run_command plat cfg (command_context m) cmd arg w1)))"
proof (cases "user_bot (message_author m)")
  case True
  then show ?thesis
    by (simp add: on_message_def skip_def)
next
  case False
  from on_message_parts [OF False, of plat cfg] obtain p where k: "keeps_allowlist p"
    and eq: "on_message plat cfg m = then_do p (process_commands plat cfg m)"
    by blast
  obtain r w0 where pw: "p w = (r, w0)" by (cases "p w")
  with keeps_allowlistD [OF k, of w] have w0: "whitelisted w0 = whitelisted w" by simp
  show ?thesis
  proof (cases r)
    case (Inl e)
    with pw w0 show ?thesis
      unfolding eq by (simp add: then_do_def)
  next
    case (Inr u)
    with pw have "on_message plat cfg m w = process_commands plat cfg m w0"
      unfolding eq by (simp add: then_do_def)
    with whitelisted_after_process_commands [of plat cfg m w0] w0 show ?thesis
      by auto
  qed
qed



lemma dispatch_keeps_member:
  assumes "p \<in> whitelisted w" and "\<not> unwhitelists plat ev p"
  shows "p \<in> whitelisted (snd (dispatch plat cfg ev w))"
proof (cases "structural ev")
  case (Some ga)
  from keeps_allowlistD [OF keeps_structural [OF this]] assms(1) show ?thesis
    by simp
next
  case None
  then obtain m where ev: "ev = MessageCreated m"
    by (cases ev) simp_all
  from whitelisted_after_on_message [of plat cfg m w]
  show ?thesis
  proof
    assume "whitelisted (snd (on_message plat cfg m w)) = whitelisted w"
    with assms(1) ev show ?thesis by simp
  next
    assume "\<exists>cmd arg w1. get_context plat m = Some (cmd, arg) \<and> whitelisted w1 = whitelisted w \<and>
      whitelisted (snd (on_message plat cfg m w)) =
        whitelisted (snd (run_command plat cfg (command_context m) cmd arg w1))"
    then obtain cmd arg w1 where g: "get_context plat m = Some (cmd, arg)"
      and w1: "whitelisted w1 = whitelisted w"
      and r: "whitelisted (snd (on_message plat cfg m w)) =
        whitelisted (snd (run_command plat cfg (command_context m) cmd arg w1))"
      by blast
    from assms(2) ev g have "\<not> (\<exists>member. cmd = Unwhitelist \<and> arg = Some member \<and> user_id member = p)"
      by auto
    with assms(1) w1 have "p \<in> whitelisted (snd (run_command plat cfg (command_context m) cmd arg w1))"
      unfolding whitelisted_after_run_command
      by (cases arg; cases cmd) auto
    with r ev show ?thesis by simp
  qed
qed


lemma demo_message_sel:
  "message_id (demo_message u s) = 100"
  "message_author (demo_message u s) = u"
  "message_content (demo_message u s) = s"
  "message_guild (demo_message u s) = demo_guild"
  by (simp_all add: demo_message_def)


section \<open>The link rule\<close>




section \<open>The mass-mention rule\<close>




section \<open>Both rules on one message\<close>

lemma both_rules_when_quiet:
  assumes "url_like (message_content m)" and "mass_mention (message_content m)"
    and "\<not> user_bot (message_author m)" and "user_id (message_author m) \<notin> whitelisted w"
    and "quiet plat"
  shows "\<exists>l1 l2. delete_and_warn cfg m l1 \<and> timeout_and_warn cfg m l2 \<and>
     on_message plat cfg m w = process_commands plat cfg m (w\<lparr>calls := calls w @ l1 @ l2\<rparr>)"
proof -
  from assms(1) have "search LINK_PATTERN (message_content m)"
    by (simp add: search_LINK_PATTERN)
  with assms on_message_quiet [where plat = plat and m = m and cfg = cfg and w = w]
  show ?thesis by auto
qed

lemmas run_defs = on_message_def block_def then_do_def when_io_def skip_def call_def
  send_dm_def try_except_def print_def log_action_def get_channel_def

lemma demo_here_tests:
  "search LINK_PATTERN ''@here http://example.org/x''"
  "\<not> py_in ''@everyone'' (lower ''@here http://example.org/x'')"
  "py_in ''@here'' (lower ''@here http://example.org/x'')"
  by code_simp+

text \<open>
  Claim C4 holds of the order in which the handler issues its calls, and of every
  platform that answers them all normally. The handler however deletes the same
  message in both rules. On a platform where a message can be deleted only once, the
  message below, with a link and a mass mention from a stranger, is deleted, answered
  and logged by the link rule; the delete of the mention rule is then answered with
  \<open>NotFound\<close>, the handler ends in that exception, and the timeout, the direct message
  and the log entry of the mention verdict are never issued.
\<close>

theorem both_rules_second_delete:
  "on_message demo_strict_platform demo_config
      (demo_message demo_mallory ''@here http://example.org/x'') (startup demo_config)
    = (Inl NotFound,
       \<lparr>whitelisted = {1},
        calls = [MessageDelete 100,
                 UserSend 7 (security_alert link_notice),
                 ChannelSend 99 (Embed \<lparr>description =
                     link_log_text (demo_message demo_mallory ''@here http://example.org/x''),
                   color = Orange, timestamp = 0\<rparr>),
                 MessageDelete 100],
        console = []\<rparr>)"
  by (simp add: run_defs demo_here_tests demo_message_sel demo_strict_platform_def
      raises_once_gone_def demo_mallory_def demo_guild_def demo_config_def startup_def
      del: search.simps match_here.simps)

section \<open>Ignored messages and the command subsystem\<close>




section \<open>Structural changes\<close>

lemma take_1_filter:
  "take (Suc 0) (filter P xs) = (case find P xs of None \<Rightarrow> [] | Some x \<Rightarrow> [x])"
  by (induction xs) simp_all

lemma audit_logs_1:
  "audit_logs g a (Suc 0) = (case most_recent g a of None \<Rightarrow> [] | Some e \<Rightarrow> [e])"
  by (simp only: audit_logs_def most_recent_def take_1_filter)

lemma audit_loop:
  "for_each body (audit_logs g a (Suc 0)) =
     (case most_recent g a of None \<Rightarrow> skip | Some e \<Rightarrow> body e)"
  by (simp add: audit_logs_1 then_do_skip split: option.splits)




lemma demo_audit:
  "most_recent demo_guild channel_create = Some \<lparr>entry_action = channel_create, entry_user = demo_mallory\<rparr>"
  "most_recent demo_guild role_create = Some \<lparr>entry_action = role_create, entry_user = demo_owner\<rparr>"
  "most_recent demo_guild ban = Some \<lparr>entry_action = ban, entry_user = demo_mallory\<rparr>"
  "most_recent (demo_guild\<lparr>guild_audit := []\<rparr>) ban = None"
  by (simp_all add: most_recent_def demo_guild_def)




section \<open>What the ban handler touches\<close>

lemma on_member_ban_unauthorized:
  assumes "most_recent g ban = Some e" and "user_id (entry_user e) \<notin> whitelisted w"
  shows "on_member_ban plat cfg g u w =
     then_do (call plat (Ban (user_id (entry_user e)) ''Unauthorized ban attempt''))
       (log_action plat cfg g (ban_log_text e u)) w"
  using assms
  by (simp add: on_member_ban_def audit_loop when_io_def block_Cons block_Nil then_do_skip)

text \<open>
  Claim C7. When the most recent ban entry of the audit log names a user who is not on
  the allow-list, the ban handler asks the platform to ban that user and then logs the
  action; on every platform these are the only calls it makes, and nothing else of the
  state changes. The member whose ban set the handler off is not acted upon: there is no
  call that would lift that ban.
\<close>

theorem unauthorized_ban_frame:
  assumes "most_recent g ban = Some e" and "user_id (entry_user e) \<notin> whitelisted w"
  shows "\<exists>rest.
     snd (on_member_ban plat cfg g u w) =
       w\<lparr>calls := calls w @ Ban (user_id (entry_user e)) ''Unauthorized ban attempt'' # rest\<rparr> \<and>
     (rest = [] \<or> logged cfg g (ban_log_text e u) rest) \<and>
     (quiet plat \<longrightarrow> logged cfg g (ban_log_text e u) rest \<and>
        fst (on_member_ban plat cfg g u w) = Inr ())"
proof -
  let ?b = "Ban (user_id (entry_user e)) ''Unauthorized ban attempt''"
  let ?w1 = "w\<lparr>calls := calls w @ [?b]\<rparr>"
  note run = on_member_ban_unauthorized [OF assms, of plat cfg u]
  show ?thesis
  proof (cases "raises plat (calls w) ?b")
    case (Some x)
    then have "on_member_ban plat cfg g u w = (Inl x, ?w1)"
      by (simp add: run then_do_def call_def)
    moreover from Some have "\<not> quiet plat"
      by (auto simp: quiet_def)
    ultimately show ?thesis
      by (intro exI [of _ "[]"]) simp
  next
    case None
    then have step: "on_member_ban plat cfg g u w = log_action plat cfg g (ban_log_text e u) ?w1"
      by (simp add: run then_do_def call_def)
    show ?thesis
    proof (cases "get_channel g (LOG_CHANNEL_ID cfg)")
      case None
      then have "on_member_ban plat cfg g u w = (Inr (), ?w1)"
        and "logged cfg g (ban_log_text e u) []"
        by (simp_all add: step log_action_def skip_def logged_def)
      then show ?thesis
        by (intro exI [of _ "[]"]) simp
    next
      case (Some lc)
      let ?s = "ChannelSend lc (Embed \<lparr>description = ban_log_text e u, color = Orange,
          timestamp = utcnow plat (calls ?w1)\<rparr>)"
      from Some have l: "logged cfg g (ban_log_text e u) [?s]"
        by (simp add: logged_def)
      from Some have s: "snd (on_member_ban plat cfg g u w) = w\<lparr>calls := calls w @ ?b # [?s]\<rparr>"
        by (simp add: step log_action_def call_def)
      have q: "quiet plat \<longrightarrow> fst (on_member_ban plat cfg g u w) = Inr ()"
        using Some by (simp add: step log_action_def call_quiet)
      from l s q show ?thesis
        by (intro exI [of _ "[?s]"]) simp
    qed
  qed
qed

text \<open>The theorem on the demo guild, where the last ban was issued by a stranger.\<close>

theorem unauthorized_ban_frame_witness:
  "most_recent demo_guild ban = Some \<lparr>entry_action = ban, entry_user = demo_mallory\<rparr> \<and>
   user_id demo_mallory \<notin> whitelisted (startup demo_config) \<and> quiet demo_platform \<and>
   (\<exists>rest.
      snd (on_member_ban demo_platform demo_config demo_guild demo_feed_bot (startup demo_config))
        = (startup demo_config)\<lparr>calls := calls (startup demo_config) @
             Ban 7 ''Unauthorized ban attempt'' # rest\<rparr> \<and>
      logged demo_config demo_guild
        (ban_log_text \<lparr>entry_action = ban, entry_user = demo_mallory\<rparr> demo_feed_bot) rest \<and>
      fst (on_member_ban demo_platform demo_config demo_guild demo_feed_bot (startup demo_config))
        = Inr ())"
proof -
  have m: "user_id (entry_user \<lparr>entry_action = ban, entry_user = demo_mallory\<rparr>)
      \<notin> whitelisted (startup demo_config)"
    "user_id demo_mallory = 7"
    by (simp_all add: demo_defs)
  show ?thesis
    using unauthorized_ban_frame [OF demo_audit(3) m(1), where plat = demo_platform
        and cfg = demo_config and u = demo_feed_bot]
      m quiet_demo_platform
    by (auto simp: demo_audit)
qed

section \<open>Who gets banned\<close>



lemma banned_append: "banned (xs @ ys) = banned xs @ banned ys"
  by (simp add: banned_def)

lemma banned_Nil: "banned [] = []"
  by (simp add: banned_def)

lemma banned_Cons: "banned (a # ls) = banned_by a @ banned ls"
  by (simp add: banned_def)

lemma banned_logged: "logged cfg g t lg \<Longrightarrow> banned lg = []"
  by (auto simp: logged_def banned_def split: option.splits)

lemma banned_delete_and_warn: "delete_and_warn cfg m ls \<Longrightarrow> banned ls = []"
  by (auto simp: delete_and_warn_def banned_Cons dest!: banned_logged)

lemma banned_timeout_and_warn: "timeout_and_warn cfg m ls \<Longrightarrow> banned ls = []"
  by (auto simp: timeout_and_warn_def banned_Cons dest!: banned_logged)








section \<open>Failing primitives\<close>








section \<open>The allow-list under the commands\<close>

lemma unwhitelist_quiet:
  assumes "quiet plat" and "is_owner plat (user_id (ctx_author ctx))"
  shows "fst (unwhitelist plat cfg ctx member w) = Inr ()"
proof -
  let ?w1 = "w\<lparr>whitelisted := whitelisted w - {user_id member}\<rparr>"
  obtain lg where "block (map (call plat) [ChannelSend (channel_id (ctx_channel ctx))
       (Text ('':x: '' @ user_mention member @ '' has been removed from whitelist.''))] @
     [log_action plat cfg (ctx_guild ctx)
       ('':memo: '' @ user_mention (ctx_author ctx) @ '' unwhitelisted '' @ user_mention member)]) ?w1
      = (Inr (), ?w1\<lparr>calls := calls ?w1 @ [ChannelSend (channel_id (ctx_channel ctx))
       (Text ('':x: '' @ user_mention member @ '' has been removed from whitelist.''))] @ lg\<rparr>)"
    using verdict_quiet [OF assms(1)] by blast
  with assms(2) show ?thesis
    by (simp add: unwhitelist_def owner_only_def block_Cons [of _ "_ # _"] then_do_def)
qed

lemma owner_message_removes_owner:
  "on_message demo_platform demo_config (demo_message demo_owner ''!unwhitelist <@1>'')
       (startup demo_config)
     = (Inr (),
        \<lparr>whitelisted = {},
         calls = [ProcessCommands 100,
                  ChannelSend 10 (Text '':x: <@1> has been removed from whitelist.''),
                  ChannelSend 99 (Embed \<lparr>description = '':memo: <@1> unwhitelisted <@1>'',
                    color = Orange, timestamp = 0\<rparr>)],
         console = []\<rparr>)"
  by (simp add: run_defs process_commands_def invoke_def command_context_def unwhitelist_def
      owner_only_def demo_get_context_def demo_defs
      del: search.simps match_here.simps)

text \<open>
  Claim C6, as the code has it. The configured owner is on the allow-list at startup.
  \<open>whitelist\<close> keeps the owner on it, \<open>unwhitelist\<close> keeps the owner on it whenever its
  target is somebody else, and every event handler keeps the owner on it unless the
  event is a message that invokes \<open>unwhitelist\<close> on the owner. Called by an owner with
  the configured owner as target, \<open>unwhitelist\<close> takes the owner off the list.
\<close>

theorem owner_stays_unless_removed:
  "OWNER_ID cfg \<in> whitelisted (startup cfg) \<and>
   (OWNER_ID cfg \<in> whitelisted w \<longrightarrow>
      OWNER_ID cfg \<in> whitelisted (snd (whitelist plat cfg ctx member w))) \<and>
   (OWNER_ID cfg \<in> whitelisted w \<and> user_id member \<noteq> OWNER_ID cfg \<longrightarrow>
      OWNER_ID cfg \<in> whitelisted (snd (unwhitelist plat cfg ctx member w))) \<and>
   (OWNER_ID cfg \<in> whitelisted w \<and> \<not> unwhitelists plat ev (OWNER_ID cfg) \<longrightarrow>
      OWNER_ID cfg \<in> whitelisted (snd (dispatch plat cfg ev w))) \<and>
   (is_owner plat (user_id (ctx_author ctx)) \<and> user_id member = OWNER_ID cfg \<longrightarrow>
      OWNER_ID cfg \<notin> whitelisted (snd (unwhitelist plat cfg ctx member w)))"
  using dispatch_keeps_member [of "OWNER_ID cfg" w plat ev cfg]
  by (simp add: whitelisted_after_whitelist whitelisted_after_unwhitelist startup_def)

text \<open>
  The theorem on the demo guild, with a stranger and with the owner as target, and at
  the owner's message that puts the stranger on the list.
\<close>

theorem owner_stays_unless_removed_witness:
  "OWNER_ID demo_config \<in> whitelisted (startup demo_config) \<and>
   OWNER_ID demo_config \<in> whitelisted (snd (whitelist demo_platform demo_config
       (demo_invocation demo_owner) demo_mallory (startup demo_config))) \<and>
   user_id demo_mallory \<noteq> OWNER_ID demo_config \<and>
   OWNER_ID demo_config \<in> whitelisted (snd (unwhitelist demo_platform demo_config
       (demo_invocation demo_owner) demo_mallory (startup demo_config))) \<and>
   \<not> unwhitelists demo_platform (MessageCreated (demo_message demo_owner ''!whitelist <@7>''))
       (OWNER_ID demo_config) \<and>
   OWNER_ID demo_config \<in> whitelisted (snd (dispatch demo_platform demo_config
       (MessageCreated (demo_message demo_owner ''!whitelist <@7>'')) (startup demo_config))) \<and>
   is_owner demo_platform (user_id (ctx_author (demo_invocation demo_owner))) \<and>
   user_id demo_owner = OWNER_ID demo_config \<and>
   OWNER_ID demo_config \<notin> whitelisted (snd (unwhitelist demo_platform demo_config
       (demo_invocation demo_owner) demo_owner (startup demo_config)))"
proof -
  have a: "OWNER_ID demo_config \<in> whitelisted (startup demo_config)"
    "user_id demo_mallory \<noteq> OWNER_ID demo_config"
    "is_owner demo_platform (user_id (ctx_author (demo_invocation demo_owner)))"
    "user_id demo_owner = OWNER_ID demo_config"
    by (simp_all add: demo_defs)
  have b: "\<not> unwhitelists demo_platform
      (MessageCreated (demo_message demo_owner ''!whitelist <@7>'')) (OWNER_ID demo_config)"
    by (simp add: demo_platform_def demo_get_context_def demo_message_sel)
  show ?thesis
    using owner_stays_unless_removed [where cfg = demo_config and w = "startup demo_config"
        and plat = demo_platform and ctx = "demo_invocation demo_owner" and member = demo_mallory
        and ev = "MessageCreated (demo_message demo_owner ''!whitelist <@7>'')"]
      owner_stays_unless_removed [where cfg = demo_config and w = "startup demo_config"
        and plat = demo_platform and ctx = "demo_invocation demo_owner" and member = demo_owner
        and ev = "MessageCreated (demo_message demo_owner ''!whitelist <@7>'')"]
      a b
    by blast
qed

text \<open>
  The claim as worded has every operation keep the owner on the allow-list. The owner
  removing the owner empties the list that held the owner alone.
\<close>

theorem owner_removes_owner:
  "is_owner demo_platform (user_id (ctx_author (demo_invocation demo_owner))) \<and>
   user_id demo_owner = OWNER_ID demo_config \<and>
   whitelisted (startup demo_config) = {OWNER_ID demo_config} \<and>
   unwhitelist demo_platform demo_config (demo_invocation demo_owner) demo_owner
       (startup demo_config)
     = (Inr (),
        \<lparr>whitelisted = {},
         calls = [ChannelSend 10 (Text '':x: <@1> has been removed from whitelist.''),
                  ChannelSend 99 (Embed \<lparr>description = '':memo: <@1> unwhitelisted <@1>'',
                    color = Orange, timestamp = 0\<rparr>)],
         console = []\<rparr>)"
  by (simp add: unwhitelist_def owner_only_def run_defs demo_defs)

text \<open>
  Claim C8. Called by an owner: after \<open>whitelist\<close> of a principal the allow-list contains
  it; after \<open>unwhitelist\<close> of the same principal right after, the allow-list does not
  contain it; and \<open>unwhitelist\<close> of a principal that is not on the list leaves the list
  as it is and returns normally (when the acknowledgement and the log entry can be
  sent).
\<close>

theorem whitelist_then_unwhitelist:
  assumes "is_owner plat (user_id (ctx_author ctx))"
  shows "user_id p \<in> whitelisted (snd (whitelist plat cfg ctx p w)) \<and>
     user_id p \<notin> whitelisted
       (snd (unwhitelist plat cfg ctx p (snd (whitelist plat cfg ctx p w)))) \<and>
     (user_id p \<notin> whitelisted w \<longrightarrow>
        whitelisted (snd (unwhitelist plat cfg ctx p w)) = whitelisted w \<and>
        (quiet plat \<longrightarrow> fst (unwhitelist plat cfg ctx p w) = Inr ()))"
  using assms unwhitelist_quiet [where plat = plat and ctx = ctx and cfg = cfg and member = p and w = w]
  by (simp add: whitelisted_after_whitelist whitelisted_after_unwhitelist)

text \<open>The theorem for the owner of the demo guild and a stranger.\<close>

theorem whitelist_then_unwhitelist_witness:
  "is_owner demo_platform (user_id (ctx_author (demo_invocation demo_owner))) \<and>
   user_id demo_mallory \<in> whitelisted (snd (whitelist demo_platform demo_config
       (demo_invocation demo_owner) demo_mallory (startup demo_config))) \<and>
   user_id demo_mallory \<notin> whitelisted (snd (unwhitelist demo_platform demo_config
       (demo_invocation demo_owner) demo_mallory
       (snd (whitelist demo_platform demo_config (demo_invocation demo_owner) demo_mallory
          (startup demo_config))))) \<and>
   user_id demo_mallory \<notin> whitelisted (startup demo_config) \<and> quiet demo_platform \<and>
   whitelisted (snd (unwhitelist demo_platform demo_config (demo_invocation demo_owner)
       demo_mallory (startup demo_config))) = whitelisted (startup demo_config) \<and>
   fst (unwhitelist demo_platform demo_config (demo_invocation demo_owner) demo_mallory
       (startup demo_config)) = Inr ()"
proof -
  have a: "is_owner demo_platform (user_id (ctx_author (demo_invocation demo_owner)))"
    "user_id demo_mallory \<notin> whitelisted (startup demo_config)"
    by (simp_all add: demo_defs)
  show ?thesis
    using whitelist_then_unwhitelist [OF a(1), where p = demo_mallory and cfg = demo_config
        and w = "startup demo_config"]
      a quiet_demo_platform
    by blast
qed

end
